theory Spec2Isabelle
  imports Main
begin

section \<open>Recursive composite scanner: the model\<close>

text \<open>
  A shallow embedding of \<^verbatim>\<open>GitHub/recursive_composite_scanner.py\<close>.
  A Python \<^verbatim>\<open>str\<close> is a \<^typ>\<open>string\<close>, each \<^typ>\<open>char\<close> standing for one code
  point below 256. What the script obtains from \<^verbatim>\<open>git\<close>, from the file system and
  from \<^verbatim>\<open>yaml.safe_load\<close> is an input of the model; every exception the script can
  raise on such an input is a value of \<open>error\<close>.
\<close>

subsection \<open>Strings\<close>

definition startswith :: "string \<Rightarrow> string \<Rightarrow> bool" where
  "startswith s p = (take (length p) s = p)"

text \<open>Python's \<^verbatim>\<open>sub in s\<close> on strings.\<close>

fun str_contains :: "string \<Rightarrow> string \<Rightarrow> bool" where
  "str_contains sub [] = (sub = [])"
| "str_contains sub (c # cs) = (startswith (c # cs) sub \<or> str_contains sub cs)"

text \<open>
  \<^verbatim>\<open>str.isspace\<close> on the code points below 256: tab, line feed, vertical tab, form
  feed, carriage return, the four separators 0x1c to 0x1f, the space, NEL and the
  no-break space.
\<close>

definition is_space :: "char \<Rightarrow> bool" where
  "is_space c = ((of_char c :: nat) \<in> {9, 10, 11, 12, 13, 28, 29, 30, 31, 32, 133, 160})"

definition strip :: "string \<Rightarrow> string" where
  "strip s = rev (dropWhile is_space (rev (dropWhile is_space s)))"

text \<open>
  \<^verbatim>\<open>str.upper\<close>, on the ASCII letters. The script only asks whether the upper-cased
  line starts with \<^verbatim>\<open>"FROM "\<close>, and the only characters whose upper case is one of
  those five are the ASCII ones.
\<close>

definition upper_char :: "char \<Rightarrow> char" where
  "upper_char c =
     (let n = (of_char c :: nat) in if 97 \<le> n \<and> n \<le> 122 then char_of (n - 32) else c)"

definition upper :: "string \<Rightarrow> string" where
  "upper s = map upper_char s"

subsection \<open>Errors and references\<close>

datatype error =
    ValueError string
  | TypeError
  | AttributeError

type_synonym ref = "string \<times> string \<times> string"

definition is_external_action :: "string \<Rightarrow> bool" where
  "is_external_action uses_value = (CHR ''/'' \<in> set uses_value \<and> CHR ''@'' \<in> set uses_value)"

text \<open>
  \<^verbatim>\<open>re.match(r"^([^/]+)/([^@]+)@(.+)$", uses_value)\<close>. The first group is the
  longest run free of \<^verbatim>\<open>/\<close> and must be followed by \<^verbatim>\<open>/\<close>; the second is the longest
  run free of \<^verbatim>\<open>@\<close> after it and must be followed by \<^verbatim>\<open>@\<close>; \<^verbatim>\<open>.\<close> matches
  anything but a line feed, and \<^verbatim>\<open>$\<close> matches at the end of the string or just before
  a line feed that ends it. No other split of the string can match, so no backtracking
  is needed.
\<close>

definition parse_uses_value :: "string \<Rightarrow> error + ref" where
  "parse_uses_value uses_value =
     (let owner = takeWhile (\<lambda>c. c \<noteq> CHR ''/'') uses_value;
          after_owner = dropWhile (\<lambda>c. c \<noteq> CHR ''/'') uses_value;
          repo = takeWhile (\<lambda>c. c \<noteq> CHR ''@'') (tl after_owner);
          after_repo = dropWhile (\<lambda>c. c \<noteq> CHR ''@'') (tl after_owner);
          version = takeWhile (\<lambda>c. c \<noteq> CHR 0x0A) (tl after_repo);
          after_version = dropWhile (\<lambda>c. c \<noteq> CHR 0x0A) (tl after_repo)
      in if owner \<noteq> [] \<and> after_owner \<noteq> [] \<and> repo \<noteq> [] \<and> after_repo \<noteq> [] \<and>
            version \<noteq> [] \<and> (after_version = [] \<or> after_version = [CHR 0x0A])
         then Inr (owner, repo, version)
         else Inl (ValueError (''Cannot parse uses string: '' @ uses_value)))"

definition MAIN_KEY :: ref where
  "MAIN_KEY = (''__MAIN_REPO__'', '''', '''')"

definition key_to_str :: "ref \<Rightarrow> string" where
  "key_to_str k =
     (case k of (k0, k1, k2) \<Rightarrow>
        if k0 = ''__MAIN_REPO__'' then ''Main Repository''
        else k0 @ ''/'' @ k1 @ ''@'' @ k2)"

subsection \<open>Loaded documents\<close>

text \<open>
  What \<^verbatim>\<open>yaml.safe_load\<close> returns: null, a boolean, an integer, a string, a sequence
  or a mapping. A mapping is the list of its items; the script looks up string keys only,
  and a key of another type never equals one of them, so keys are strings. Floats,
  timestamps and binaries are left out.
\<close>

datatype yaml =
    YNull
  | YBool bool
  | YInt int
  | YStr string
  | YList "yaml list"
  | YMap "(string \<times> yaml) list"

text \<open>Reading and parsing a file either raises (the text of the exception) or loads a value.\<close>

datatype load_result = LoadError string | Loaded yaml

definition truthy :: "yaml \<Rightarrow> bool" where
  "truthy v =
     (case v of
        YNull \<Rightarrow> False
      | YBool b \<Rightarrow> b
      | YInt i \<Rightarrow> i \<noteq> 0
      | YStr s \<Rightarrow> s \<noteq> []
      | YList xs \<Rightarrow> xs \<noteq> []
      | YMap kvs \<Rightarrow> kvs \<noteq> [])"

text \<open>
  The test and the \<^verbatim>\<open>try\<close> block that both scanners run on \<^verbatim>\<open>step.get("uses")\<close>:
  \<^verbatim>\<open>if uses_val and is_external_action(uses_val): found.add(parse_uses_value(uses_val))\<close>,
  with \<^verbatim>\<open>ValueError\<close> swallowed. The result is the reference to add, if any. On a
  value that is not a string, \<^verbatim>\<open>"/" in uses_val\<close> raises \<^verbatim>\<open>TypeError\<close> for a boolean
  or an integer and tests membership for a sequence or a mapping, and \<^verbatim>\<open>re.match\<close>
  raises \<^verbatim>\<open>TypeError\<close>.
\<close>

definition uses_reference :: "yaml option \<Rightarrow> error + ref option" where
  "uses_reference uses_val =
     (case uses_val of
        None \<Rightarrow> Inr None
      | Some v \<Rightarrow>
          if \<not> truthy v then Inr None
          else (case v of
                  YStr s \<Rightarrow>
                    if is_external_action s
                    then (case parse_uses_value s of
                            Inr k \<Rightarrow> Inr (Some k)
                          | Inl (ValueError _) \<Rightarrow> Inr None
                          | Inl e \<Rightarrow> Inl e)
                    else Inr None
                | YList xs \<Rightarrow>
                    if YStr ''/'' \<in> set xs \<and> YStr ''@'' \<in> set xs then Inl TypeError
                    else Inr None
                | YMap kvs \<Rightarrow>
                    if ''/'' \<in> fst ` set kvs \<and> ''@'' \<in> fst ` set kvs then Inl TypeError
                    else Inr None
                | _ \<Rightarrow> Inl TypeError))"

subsection \<open>Workflow scanning\<close>

text \<open>
  A Python set of references that the script iterates or pops from is a list without
  duplicates, in whatever order Python holds it; \<^verbatim>\<open>add\<close> is \<^const>\<open>List.insert\<close>.
\<close>

text \<open>\<^verbatim>\<open>for step in steps\<close> of \<^verbatim>\<open>get_actions_from_workflows\<close>.\<close>

fun workflow_steps :: "yaml list \<Rightarrow> ref list \<Rightarrow> error + ref list" where
  "workflow_steps [] found = Inr found"
| "workflow_steps (step # steps) found =
     (case step of
        YMap kvs \<Rightarrow>
          (case uses_reference (map_of kvs ''uses'') of
             Inl e \<Rightarrow> Inl e
           | Inr None \<Rightarrow> workflow_steps steps found
           | Inr (Some k) \<Rightarrow> workflow_steps steps (List.insert k found))
      | _ \<Rightarrow> workflow_steps steps found)"

text \<open>\<^verbatim>\<open>for _, job_data in jobs.items()\<close>.\<close>

fun workflow_jobs :: "(string \<times> yaml) list \<Rightarrow> ref list \<Rightarrow> error + ref list" where
  "workflow_jobs [] found = Inr found"
| "workflow_jobs ((_, job_data) # jobs) found =
     (case job_data of
        YMap kvs \<Rightarrow>
          (case (case map_of kvs ''steps'' of None \<Rightarrow> YList [] | Some v \<Rightarrow> v) of
             YList steps \<Rightarrow>
               (case workflow_steps steps found of
                  Inl e \<Rightarrow> Inl e
                | Inr found' \<Rightarrow> workflow_jobs jobs found')
           | _ \<Rightarrow> workflow_jobs jobs found)
      | _ \<Rightarrow> workflow_jobs jobs found)"

text \<open>\<^verbatim>\<open>for wf in files\<close>, a file being what loading it gives.\<close>

fun workflow_files :: "load_result list \<Rightarrow> ref list \<Rightarrow> error + ref list" where
  "workflow_files [] found = Inr found"
| "workflow_files (wf_file # files) found =
     (case wf_file of
        LoadError _ \<Rightarrow> workflow_files files found
      | Loaded doc \<Rightarrow>
          (case doc of
             YMap kvs \<Rightarrow>
               (case (case map_of kvs ''jobs'' of None \<Rightarrow> YMap [] | Some v \<Rightarrow> v) of
                  YMap jobs \<Rightarrow>
                    (case workflow_jobs jobs found of
                       Inl e \<Rightarrow> Inl e
                     | Inr found' \<Rightarrow> workflow_files files found')
                | _ \<Rightarrow> workflow_files files found)
           | _ \<Rightarrow> workflow_files files found))"

definition get_actions_from_workflows :: "load_result list \<Rightarrow> error + ref list" where
  "get_actions_from_workflows files = workflow_files files []"

subsection \<open>Container images\<close>

definition is_unpinned_docker_image :: "string \<Rightarrow> bool" where
  "is_unpinned_docker_image image_str =
     (if \<not> startswith image_str ''docker://'' then False
      else \<not> str_contains ''@sha256:'' (drop (length ''docker://'') image_str))"

text \<open>One iteration of \<^verbatim>\<open>for line in f\<close>: the warnings it appends.\<close>

definition dockerfile_line :: "string \<Rightarrow> string list" where
  "dockerfile_line line =
     (if startswith (upper (strip line)) ''FROM ''
      then (let ref = strip (drop 5 (strip line))
            in if \<not> str_contains ''@sha256:'' ref
               then [''Unpinned Docker FROM => '' @ [CHR 0x27] @ ref @ [CHR 0x27]]
               else [])
      else [])"

fun dockerfile_lines :: "string list \<Rightarrow> string list \<Rightarrow> string list" where
  "dockerfile_lines [] warnings = warnings"
| "dockerfile_lines (line # lines) warnings =
     dockerfile_lines lines (warnings @ dockerfile_line line)"

text \<open>
  The Dockerfile beside the action file: absent, or the lines that reading it delivers,
  followed by the text of the exception that ends the reading, if one does.
\<close>

datatype dockerfile = NoDockerfile | Dockerfile "string list" "string option"

definition analyze_dockerfile :: "string list \<Rightarrow> string option \<Rightarrow> string list" where
  "analyze_dockerfile lines failure =
     (let warnings = dockerfile_lines lines []
      in case failure of
           None \<Rightarrow> warnings
         | Some e \<Rightarrow> warnings @ [''Could not read Dockerfile: '' @ e])"

subsection \<open>Action files\<close>

text \<open>
  \<^verbatim>\<open>for step in steps\<close> of \<^verbatim>\<open>get_actions_and_docker_warnings_from_action_file\<close>:
  \<^verbatim>\<open>step.get\<close> is called on every step, and only a mapping has it.
\<close>

fun composite_steps :: "yaml list \<Rightarrow> ref list \<Rightarrow> error + ref list" where
  "composite_steps [] discovered = Inr discovered"
| "composite_steps (step # steps) discovered =
     (case step of
        YMap kvs \<Rightarrow>
          (case uses_reference (map_of kvs ''uses'') of
             Inl e \<Rightarrow> Inl e
           | Inr None \<Rightarrow> composite_steps steps discovered
           | Inr (Some k) \<Rightarrow> composite_steps steps (List.insert k discovered))
      | _ \<Rightarrow> Inl AttributeError)"

text \<open>
  The arguments are the name of the action file, what loading it gives, and the
  Dockerfile beside it.
\<close>

definition get_actions_and_docker_warnings_from_action_file ::
  "string \<Rightarrow> load_result \<Rightarrow> dockerfile \<Rightarrow> error + (ref list \<times> string list)" where
  "get_actions_and_docker_warnings_from_action_file name loaded df =
     (case loaded of
        LoadError e \<Rightarrow> Inr ([], [''Could not parse '' @ name @ '': '' @ e])
      | Loaded doc \<Rightarrow>
          (case doc of
             YMap kvs \<Rightarrow>
               (case (case map_of kvs ''runs'' of None \<Rightarrow> YMap [] | Some v \<Rightarrow> v) of
                  YMap runs \<Rightarrow>
                    if map_of runs ''using'' = Some (YStr ''docker'') then
                      (case map_of runs ''image'' of
                         Some (YStr image_val) \<Rightarrow>
                           if startswith image_val ''docker://'' then
                             (if is_unpinned_docker_image image_val
                              then Inr ([], [''Unpinned Docker image => '' @ image_val])
                              else Inr ([], []))
                           else if image_val = ''Dockerfile'' then
                             (case df of
                                Dockerfile lines failure \<Rightarrow>
                                  Inr ([], analyze_dockerfile lines failure)
                              | NoDockerfile \<Rightarrow>
                                  Inr ([], [''runs.image='' @ [CHR 0x27] @ ''Dockerfile'' @
                                            [CHR 0x27] @ '' but no Dockerfile found in root.'']))
                           else Inr ([], [])
                       | _ \<Rightarrow> Inr ([], []))
                    else if map_of runs ''using'' = Some (YStr ''composite'') then
                      (case (case map_of runs ''steps'' of None \<Rightarrow> YList [] | Some v \<Rightarrow> v) of
                         YList steps \<Rightarrow>
                           (case composite_steps steps [] of
                              Inl e \<Rightarrow> Inl e
                            | Inr discovered \<Rightarrow> Inr (discovered, []))
                       | _ \<Rightarrow> Inr ([], []))
                    else Inr ([], [])
                | _ \<Rightarrow> Inr ([], []))
           | _ \<Rightarrow> Inr ([], [])))"

subsection \<open>The discovery traversal\<close>

text \<open>
  What \<^verbatim>\<open>clone_repo\<close> followed by \<^verbatim>\<open>find_top_level_action_file\<close> gives for a
  reference: the clone or the checkout raises (the text of the exception), or the clone
  has no action file, or it has one, with its name, what loading it gives, and the
  Dockerfile beside it. The world maps every reference to that outcome.
\<close>

datatype acquired =
    CloneFailed string
  | NoActionFile
  | ActionFile string load_result dockerfile

type_synonym world = "ref \<Rightarrow> acquired"

text \<open>
  The local variables of \<^verbatim>\<open>recursively_discover_actions\<close>. The sets \<^verbatim>\<open>visited\<close>
  and \<^verbatim>\<open>all_discovered\<close> are only tested for membership and added to. The graph is an
  \<^verbatim>\<open>OrderedDict\<close>; the order of its keys is left out. Three fields are the effects of
  the function: \<open>printed\<close> holds the lines it prints itself, \<open>cloned\<close> the references
  \<^verbatim>\<open>clone_repo\<close> was called with, \<open>inspected\<close> those whose action file was handed to
  \<^verbatim>\<open>get_actions_and_docker_warnings_from_action_file\<close>, each in the order of the calls.
\<close>

record state =
  to_visit :: "ref list"
  visited :: "ref set"
  all_discovered :: "ref set"
  dependencies_graph :: "ref \<Rightarrow> ref set option"
  docker_warnings_map :: "ref \<Rightarrow> string list option"
  printed :: "string list"
  cloned :: "ref list"
  inspected :: "ref list"

definition setdefault :: "('k \<Rightarrow> 'v option) \<Rightarrow> 'k \<Rightarrow> 'v \<Rightarrow> ('k \<Rightarrow> 'v option)" where
  "setdefault m k v = (case m k of None \<Rightarrow> m(k \<mapsto> v) | Some _ \<Rightarrow> m)"

text \<open>
  \<^verbatim>\<open>to_visit.pop()\<close> removes some element of the set. Which one is the choice of
  Python's hash table: the parameter \<open>pick\<close> gives its index in the list.
\<close>

definition pop :: "(ref list \<Rightarrow> nat) \<Rightarrow> ref list \<Rightarrow> ref \<times> ref list" where
  "pop pick xs = (let k = xs ! (pick xs mod length xs) in (k, removeAll k xs))"

definition clone_warning :: "ref \<Rightarrow> string \<Rightarrow> string" where
  "clone_warning k e =
     (case k of (owner, repo, version) \<Rightarrow>
        ''WARNING: Unable to clone/check out '' @ owner @ ''/'' @ repo @ ''@'' @ version @
        '': '' @ e)"

text \<open>
  The body of \<^verbatim>\<open>for sa in sub_actions\<close>. The entry of the graph that it adds to
  exists: \<^verbatim>\<open>setdefault\<close> has made it earlier in the same iteration.
\<close>

definition add_sub_action :: "ref \<Rightarrow> ref \<Rightarrow> state \<Rightarrow> state" where
  "add_sub_action key sa s =
     (let s1 = s\<lparr>dependencies_graph := (dependencies_graph s)
                  (key \<mapsto> insert sa (case dependencies_graph s key of
                                        None \<Rightarrow> {} | Some children \<Rightarrow> children))\<rparr>
      in if sa \<in> all_discovered s1 then s1
         else s1\<lparr>all_discovered := insert sa (all_discovered s1),
                 to_visit := List.insert sa (to_visit s1)\<rparr>)"

text \<open>
  One iteration of \<^verbatim>\<open>while to_visit\<close>, entered with a worklist that is not empty. It
  gives the exception that leaves the function, if one is raised, and the state reached.
\<close>

definition iteration :: "world \<Rightarrow> (ref list \<Rightarrow> nat) \<Rightarrow> state \<Rightarrow> error option \<times> state" where
  "iteration world pick s =
     (case pop pick (to_visit s) of
        (key, rest) \<Rightarrow>
          let s1 = s\<lparr>to_visit := rest\<rparr> in
          if key \<in> visited s1 then (None, s1)
          else
            let s2 = s1\<lparr>visited := insert key (visited s1),
                        dependencies_graph := setdefault (dependencies_graph s1) key {},
                        docker_warnings_map := setdefault (docker_warnings_map s1) key [],
                        cloned := cloned s1 @ [key]\<rparr>
            in case world key of
                 CloneFailed e \<Rightarrow> (None, s2\<lparr>printed := printed s2 @ [clone_warning key e]\<rparr>)
               | NoActionFile \<Rightarrow> (None, s2)
               | ActionFile name loaded df \<Rightarrow>
                   let s3 = s2\<lparr>inspected := inspected s2 @ [key]\<rparr> in
                   (case get_actions_and_docker_warnings_from_action_file name loaded df of
                      Inl err \<Rightarrow> (Some err, s3)
                    | Inr (sub_actions, docker_warns) \<Rightarrow>
                        let s4 = (if docker_warns \<noteq> []
                                  then s3\<lparr>docker_warnings_map := (docker_warnings_map s3)
                                            (key \<mapsto> (case docker_warnings_map s3 key of
                                                        None \<Rightarrow> [] | Some ws \<Rightarrow> ws)
                                                     @ docker_warns)\<rparr>
                                  else s3)
                        in (None, fold (add_sub_action key) sub_actions s4)))"

text \<open>
  The loop. It need not end: the world may hold an endless chain of actions each using
  the next. \<open>None\<close> is the run that never returns.
\<close>

partial_function (option) drain ::
  "world \<Rightarrow> (ref list \<Rightarrow> nat) \<Rightarrow> state \<Rightarrow> (error option \<times> state) option" where
  "drain world pick s =
     (if to_visit s = [] then Some (None, s)
      else (let r = iteration world pick s
            in if fst r \<noteq> None then Some r else drain world pick (snd r)))"

declare drain.simps [code]

definition initial_message :: "string \<Rightarrow> string" where
  "initial_message initial_repo_url = ''Cloning initial repository: '' @ initial_repo_url"

text \<open>The state before the loop, \<open>discovered\<close> being the references of the workflows.\<close>

definition init_state :: "string \<Rightarrow> ref list \<Rightarrow> state" where
  "init_state initial_repo_url discovered =
     \<lparr>to_visit = discovered,
      visited = {},
      all_discovered = set discovered,
      dependencies_graph = [MAIN_KEY \<mapsto> set discovered],
      docker_warnings_map = [MAIN_KEY \<mapsto> []],
      printed = [initial_message initial_repo_url],
      cloned = [],
      inspected = []\<rparr>"

text \<open>The state when scanning the workflows raises: neither mapping exists yet.\<close>

definition no_state :: "string \<Rightarrow> state" where
  "no_state initial_repo_url =
     \<lparr>to_visit = [],
      visited = {},
      all_discovered = {},
      dependencies_graph = Map.empty,
      docker_warnings_map = Map.empty,
      printed = [initial_message initial_repo_url],
      cloned = [],
      inspected = []\<rparr>"

text \<open>
  The function, once the clone of the initial repository has succeeded (that clone
  failing leaves the function before any of its structures exists). \<open>files\<close> is what
  loading each workflow file of the initial repository gives. The result is \<open>None\<close>
  when the loop never ends, otherwise the exception raised, if any, and the last state;
  the function returns \<open>all_discovered\<close>, \<open>dependencies_graph\<close> and
  \<open>docker_warnings_map\<close> of that state when nothing is raised.
\<close>

definition recursively_discover_actions ::
  "string \<Rightarrow> load_result list \<Rightarrow> world \<Rightarrow> (ref list \<Rightarrow> nat) \<Rightarrow> (error option \<times> state) option" where
  "recursively_discover_actions initial_repo_url files world pick =
     (case get_actions_from_workflows files of
        Inl e \<Rightarrow> Some (Some e, no_state initial_repo_url)
      | Inr discovered \<Rightarrow> drain world pick (init_state initial_repo_url discovered))"

subsection \<open>Notions used by the properties\<close>

text \<open>What inspecting an acquired reference gives: its sub-actions and its warnings.\<close>

definition inspect :: "acquired \<Rightarrow> error + (ref list \<times> string list)" where
  "inspect a =
     (case a of
        ActionFile name loaded df \<Rightarrow>
          get_actions_and_docker_warnings_from_action_file name loaded df
      | _ \<Rightarrow> Inr ([], []))"

definition children :: "world \<Rightarrow> ref \<Rightarrow> ref set" where
  "children w k = (case inspect (w k) of Inr (sub_actions, _) \<Rightarrow> set sub_actions | Inl _ \<Rightarrow> {})"

definition node_warnings :: "world \<Rightarrow> ref \<Rightarrow> string list" where
  "node_warnings w k = (case inspect (w k) of Inr (_, docker_warns) \<Rightarrow> docker_warns | Inl _ \<Rightarrow> [])"

definition raises :: "world \<Rightarrow> ref \<Rightarrow> error option" where
  "raises w k = (case inspect (w k) of Inr _ \<Rightarrow> None | Inl e \<Rightarrow> Some e)"

definition root_references :: "load_result list \<Rightarrow> ref set" where
  "root_references files =
     (case get_actions_from_workflows files of Inr discovered \<Rightarrow> set discovered | Inl _ \<Rightarrow> {})"

text \<open>A reference is parsed when \<^const>\<open>parse_uses_value\<close> gives it for some string.\<close>

definition parsed :: "ref \<Rightarrow> bool" where
  "parsed k = (\<exists>u. parse_uses_value u = Inr k)"

text \<open>The references that can be reached from a set by following sub-actions.\<close>

definition reachable :: "world \<Rightarrow> ref set \<Rightarrow> ref set" where
  "reachable w S = {(a, b). b \<in> children w a}\<^sup>* `` S"

text \<open>The shape \<^verbatim>\<open>owner/name@version\<close> of the specification.\<close>

definition ref_shape :: "string \<Rightarrow> string \<Rightarrow> string \<Rightarrow> bool" where
  "ref_shape owner name version =
     (owner \<noteq> [] \<and> CHR ''/'' \<notin> set owner \<and> name \<noteq> [] \<and> CHR ''@'' \<notin> set name \<and>
      version \<noteq> [])"

text \<open>
  The content-digest suffix of the specification: the string ends with \<^verbatim>\<open>@sha256:\<close>
  and 64 hexadecimal digits.
\<close>

definition is_hex_char :: "char \<Rightarrow> bool" where
  "is_hex_char c = (c \<in> set ''0123456789abcdefABCDEF'')"

definition has_digest_suffix :: "string \<Rightarrow> bool" where
  "has_digest_suffix s =
     (72 \<le> length s \<and> take 8 (drop (length s - 72) s) = ''@sha256:'' \<and>
      list_all is_hex_char (drop (length s - 64) s))"

text \<open>
  The base-image directive of the specification: the first token of the line, in upper
  case, is \<^verbatim>\<open>FROM\<close>.
\<close>

definition first_token :: "string \<Rightarrow> string" where
  "first_token line = takeWhile (\<lambda>c. \<not> is_space c) (dropWhile is_space line)"

definition is_from_directive :: "string \<Rightarrow> bool" where
  "is_from_directive line = (upper (first_token line) = ''FROM'')"

text \<open>What the script tests instead, and the image reference it reports.\<close>

definition flagged_line :: "string \<Rightarrow> bool" where
  "flagged_line line =
     (startswith (upper (strip line)) ''FROM '' \<and>
      \<not> str_contains ''@sha256:'' (strip (drop 5 (strip line))))"

definition from_warning :: "string \<Rightarrow> string" where
  "from_warning line =
     ''Unpinned Docker FROM => '' @ [CHR 0x27] @ strip (drop 5 (strip line)) @ [CHR 0x27]"

text \<open>Observations of a run.\<close>

definition run_error :: "(error option \<times> state) option \<Rightarrow> error option option" where
  "run_error r = map_option fst r"

definition run_children :: "(error option \<times> state) option \<Rightarrow> ref \<Rightarrow> ref set option" where
  "run_children r k = (case r of None \<Rightarrow> None | Some (_, s) \<Rightarrow> dependencies_graph s k)"



definition run_printed :: "(error option \<times> state) option \<Rightarrow> string list" where
  "run_printed r = (case r of None \<Rightarrow> [] | Some (_, s) \<Rightarrow> printed s)"

subsection \<open>Invariants of the loop\<close>

text \<open>
  \<open>S\<close> is the set of references of the workflows. Every discovered reference is
  visited or waiting; the visited ones have all their sub-actions discovered; nothing
  outside the reachable references is discovered, and never the sentinel key.
\<close>

definition sets_inv :: "world \<Rightarrow> ref set \<Rightarrow> state \<Rightarrow> bool" where
  "sets_inv w S s =
     (all_discovered s = visited s \<union> set (to_visit s) \<and>
      S \<subseteq> all_discovered s \<and>
      all_discovered s \<subseteq> reachable w S \<and>
      (\<forall>k\<in>visited s. children w k \<subseteq> all_discovered s) \<and>
      MAIN_KEY \<notin> all_discovered s)"

text \<open>Both mappings have the sentinel key and the visited references as keys.\<close>

definition maps_inv :: "world \<Rightarrow> ref set \<Rightarrow> state \<Rightarrow> bool" where
  "maps_inv w S s =
     (dom (dependencies_graph s) = insert MAIN_KEY (visited s) \<and>
      dom (docker_warnings_map s) = insert MAIN_KEY (visited s) \<and>
      dependencies_graph s MAIN_KEY = Some S \<and>
      docker_warnings_map s MAIN_KEY = Some [] \<and>
      (\<forall>k\<in>visited s. dependencies_graph s k = Some (children w k) \<and>
                       docker_warnings_map s k = Some (node_warnings w k)))"

text \<open>The calls made so far, and the lines printed for the clones that failed.\<close>

definition trace_inv :: "world \<Rightarrow> state \<Rightarrow> bool" where
  "trace_inv w s =
     (distinct (cloned s) \<and> set (cloned s) = visited s \<and>
      distinct (inspected s) \<and> set (inspected s) \<subseteq> visited s \<and>
      (\<forall>k\<in>visited s. \<forall>e. w k = CloneFailed e \<longrightarrow> clone_warning k e \<in> set (printed s)))"

definition traversal_inv :: "world \<Rightarrow> ref set \<Rightarrow> state \<Rightarrow> bool" where
  "traversal_inv w S s = (sets_inv w S s \<and> maps_inv w S s \<and> trace_inv w s)"

subsection \<open>Fixtures\<close>

text \<open>Steps that each use one action, a workflow with one job, and two action files.\<close>

definition uses_steps :: "string list \<Rightarrow> yaml" where
  "uses_steps uses = YList (map (\<lambda>u. YMap [(''uses'', YStr u)]) uses)"

definition workflow_doc :: "string list \<Rightarrow> yaml" where
  "workflow_doc uses = YMap [(''jobs'', YMap [(''build'', YMap [(''steps'', uses_steps uses)])])]"

definition composite_doc :: "yaml \<Rightarrow> yaml" where
  "composite_doc steps =
     YMap [(''name'', YStr ''composite action''),
           (''runs'', YMap [(''using'', YStr ''composite''), (''steps'', steps)])]"

definition docker_doc :: "yaml \<Rightarrow> yaml" where
  "docker_doc image_val =
     YMap [(''name'', YStr ''container action''),
           (''runs'', YMap [(''using'', YStr ''docker''), (''image'', image_val)])]"

text \<open>
  Two composite actions that use each other; every other reference fails to clone.
\<close>

definition ref_a :: ref where
  "ref_a = (''org'', ''a'', ''v1'')"

definition ref_b :: ref where
  "ref_b = (''org'', ''b'', ''v1'')"


definition cycle_world :: world where
  "cycle_world k =
     (if k = ref_a
      then ActionFile ''action.yml'' (Loaded (composite_doc (uses_steps [''org/b@v1'']))) NoDockerfile
      else if k = ref_b
      then ActionFile ''action.yml'' (Loaded (composite_doc (uses_steps [''org/a@v1'']))) NoDockerfile
      else CloneFailed ''exit status 128'')"

text \<open>
  The workflows of two initial repositories: one uses the first action of the cycle, the
  other also uses an action that cannot be cloned and has a file that does not load.
\<close>

definition cycle_files :: "load_result list" where
  "cycle_files = [Loaded (workflow_doc [''org/a@v1''])]"

definition mixed_files :: "load_result list" where
  "mixed_files =
     [Loaded (workflow_doc [''org/a@v1'', ''./local'', ''gone/repo@v9'']),
      LoadError ''mapping values are not allowed here'']"

definition first_pick :: "ref list \<Rightarrow> nat" where
  "first_pick xs = 0"

definition last_pick :: "ref list \<Rightarrow> nat" where
  "last_pick xs = length xs - 1"

definition sixty_four_hex :: string where
  "sixty_four_hex = concat (replicate 8 ''0123abcd'')"

text \<open>
  A Dockerfile whose two base images are pinned, and two lines naming a base image that
  is not: one separates the directive from the image with a tab, the other has a digest
  that is too short.
\<close>

definition pinned_dockerfile :: "string list" where
  "pinned_dockerfile =
     [''# base image'' @ [CHR 0x0A],
      ''FROM alpine@sha256:'' @ sixty_four_hex @ '' AS build'' @ [CHR 0x0A],
      ''RUN make'' @ [CHR 0x0A],
      ''  from docker.io/library/debian@sha256:'' @ sixty_four_hex @ [CHR 0x0A]]"

definition tab_from_line :: string where
  "tab_from_line = ''FROM'' @ [CHR 0x09] @ ''ubuntu:20.04'' @ [CHR 0x0A]"

definition short_digest_line :: string where
  "short_digest_line = ''FROM ubuntu@sha256:abc'' @ [CHR 0x0A]"

section \<open>Properties\<close>

subsection \<open>Parsing references\<close>

lemma takeWhile_sep: "\<forall>x\<in>set xs. x \<noteq> c \<Longrightarrow> takeWhile (\<lambda>x. x \<noteq> c) (xs @ c # ys) = xs"
  by (induction xs) auto

lemma dropWhile_sep: "\<forall>x\<in>set xs. x \<noteq> c \<Longrightarrow> dropWhile (\<lambda>x. x \<noteq> c) (xs @ c # ys) = c # ys"
  by (induction xs) auto

lemma takeWhile_all: "\<forall>x\<in>set xs. x \<noteq> c \<Longrightarrow> takeWhile (\<lambda>x. x \<noteq> c) xs = xs"
  by (induction xs) auto

lemma dropWhile_all: "\<forall>x\<in>set xs. x \<noteq> c \<Longrightarrow> dropWhile (\<lambda>x. x \<noteq> c) xs = []"
  by (induction xs) auto

lemma parse_accepts:
  assumes "ref_shape owner name version" "CHR 0x0A \<notin> set version"
  shows "parse_uses_value (owner @ ''/'' @ name @ ''@'' @ version) = Inr (owner, name, version)"
proof -
  have o: "\<forall>x\<in>set owner. x \<noteq> CHR ''/''" and n: "\<forall>x\<in>set name. x \<noteq> CHR ''@''"
    and v: "\<forall>x\<in>set version. x \<noteq> CHR 0x0A"
    using assms by (auto simp: ref_shape_def)
  have ne: "owner \<noteq> []" "name \<noteq> []" "version \<noteq> []"
    using assms by (auto simp: ref_shape_def)
  show ?thesis
    using ne assms(2)
    by (simp add: parse_uses_value_def takeWhile_sep [OF o] dropWhile_sep [OF o]
        takeWhile_sep [OF n] dropWhile_sep [OF n] takeWhile_all [OF v] dropWhile_all [OF v])
qed

lemma parse_accepts_final_line_feed:
  assumes "ref_shape owner name version" "CHR 0x0A \<notin> set version"
  shows "parse_uses_value (owner @ ''/'' @ name @ ''@'' @ version @ [CHR 0x0A]) =
           Inr (owner, name, version)"
proof -
  have o: "\<forall>x\<in>set owner. x \<noteq> CHR ''/''" and n: "\<forall>x\<in>set name. x \<noteq> CHR ''@''"
    and v: "\<forall>x\<in>set version. x \<noteq> CHR 0x0A"
    using assms by (auto simp: ref_shape_def)
  have ne: "owner \<noteq> []" "name \<noteq> []" "version \<noteq> []"
    using assms by (auto simp: ref_shape_def)
  show ?thesis
    using ne assms(2)
    by (simp add: parse_uses_value_def takeWhile_sep [OF o] dropWhile_sep [OF o]
        takeWhile_sep [OF n] dropWhile_sep [OF n] takeWhile_sep [OF v] dropWhile_sep [OF v])
qed

lemma split_at_sep:
  assumes "dropWhile (\<lambda>x. x \<noteq> c) xs \<noteq> []"
  shows "xs = takeWhile (\<lambda>x. x \<noteq> c) xs @ c # tl (dropWhile (\<lambda>x. x \<noteq> c) xs)"
proof -
  have "hd (dropWhile (\<lambda>x. x \<noteq> c) xs) = c"
    using hd_dropWhile [OF assms] by simp
  then have "dropWhile (\<lambda>x. x \<noteq> c) xs = c # tl (dropWhile (\<lambda>x. x \<noteq> c) xs)"
    using assms by (cases "dropWhile (\<lambda>x. x \<noteq> c) xs") auto
  then show ?thesis
    by (metis takeWhile_dropWhile_id)
qed

lemma parse_result:
  assumes "parse_uses_value s = Inr (owner, name, version)"
  shows "ref_shape owner name version \<and> CHR 0x0A \<notin> set version \<and>
         (s = owner @ ''/'' @ name @ ''@'' @ version \<or>
          s = owner @ ''/'' @ name @ ''@'' @ version @ [CHR 0x0A])"
proof -
  let ?ao = "dropWhile (\<lambda>c. c \<noteq> CHR ''/'') s"
  let ?ar = "dropWhile (\<lambda>c. c \<noteq> CHR ''@'') (tl ?ao)"
  let ?av = "dropWhile (\<lambda>c. c \<noteq> CHR 0x0A) (tl ?ar)"
  from assms have c: "owner \<noteq> []" "?ao \<noteq> []" "name \<noteq> []" "?ar \<noteq> []" "version \<noteq> []"
    "?av = [] \<or> ?av = [CHR 0x0A]"
    and e: "owner = takeWhile (\<lambda>c. c \<noteq> CHR ''/'') s"
    "name = takeWhile (\<lambda>c. c \<noteq> CHR ''@'') (tl ?ao)"
    "version = takeWhile (\<lambda>c. c \<noteq> CHR 0x0A) (tl ?ar)"
    by (auto simp: parse_uses_value_def Let_def split: if_splits)
  have s1: "s = owner @ CHR ''/'' # tl ?ao"
    using split_at_sep [OF c(2)] e(1) by simp
  have s2: "tl ?ao = name @ CHR ''@'' # tl ?ar"
    using split_at_sep [OF c(4)] e(2) by simp
  have s3: "tl ?ar = version @ ?av"
    using e(3) by simp
  have shape: "ref_shape owner name version"
    using c e by (auto simp: ref_shape_def dest: set_takeWhileD)
  have nl: "CHR 0x0A \<notin> set version"
    using e(3) by (auto dest: set_takeWhileD)
  from c(6) show ?thesis
  proof
    assume "?av = []"
    with s1 s2 s3 have "s = owner @ ''/'' @ name @ ''@'' @ version" by simp
    with shape nl show ?thesis by blast
  next
    assume "?av = [CHR 0x0A]"
    with s1 s2 s3 have "s = owner @ ''/'' @ name @ ''@'' @ version @ [CHR 0x0A]" by simp
    with shape nl show ?thesis by blast
  qed
qed

subsection \<open>One iteration of the loop\<close>

lemma pop_member:
  assumes "xs \<noteq> []" "pop pick xs = (k, rest)"
  shows "k \<in> set xs" and "set rest = set xs - {k}"
proof -
  have "pick xs mod length xs < length xs" using assms(1) by simp
  then have "xs ! (pick xs mod length xs) \<in> set xs" by (rule nth_mem)
  then show "k \<in> set xs" using assms(2) by (simp add: pop_def Let_def)
  show "set rest = set xs - {k}" using assms(2) by (auto simp: pop_def Let_def)
qed

lemma setdefault_eq:
  "setdefault m k v = m(k \<mapsto> (case m k of None \<Rightarrow> v | Some x \<Rightarrow> x))"
  by (auto simp: setdefault_def split: option.splits)

lemma fold_add_sub_unchanged:
  "visited (fold (add_sub_action key) subs s) = visited s"
  "docker_warnings_map (fold (add_sub_action key) subs s) = docker_warnings_map s"
  "printed (fold (add_sub_action key) subs s) = printed s"
  "cloned (fold (add_sub_action key) subs s) = cloned s"
  "inspected (fold (add_sub_action key) subs s) = inspected s"
  by (induction subs arbitrary: s; simp add: add_sub_action_def Let_def)+

lemma fold_add_sub_all_discovered:
  "all_discovered (fold (add_sub_action key) subs s) = all_discovered s \<union> set subs"
  by (induction subs arbitrary: s) (auto simp: add_sub_action_def Let_def)

lemma fold_add_sub_to_visit:
  "set (to_visit (fold (add_sub_action key) subs s)) =
     set (to_visit s) \<union> (set subs - all_discovered s)"
  by (induction subs arbitrary: s) (auto simp: add_sub_action_def Let_def)

lemma fold_add_sub_graph:
  "dependencies_graph s key = Some c \<Longrightarrow>
   dependencies_graph (fold (add_sub_action key) subs s) =
     (dependencies_graph s)(key \<mapsto> c \<union> set subs)"
proof (induction subs arbitrary: s c)
  case Nil
  then show ?case by (simp add: map_upd_triv)
next
  case (Cons a subs)
  have g: "dependencies_graph (add_sub_action key a s) =
             (dependencies_graph s)(key \<mapsto> insert a c)"
    using Cons.prems by (simp add: add_sub_action_def Let_def)
  then have "dependencies_graph (add_sub_action key a s) key = Some (insert a c)"
    by simp
  then have step: "dependencies_graph (fold (add_sub_action key) subs (add_sub_action key a s)) =
          (dependencies_graph (add_sub_action key a s))(key \<mapsto> insert a c \<union> set subs)"
    by (rule Cons.IH)
  have e1: "fold (add_sub_action key) (a # subs) s =
              fold (add_sub_action key) subs (add_sub_action key a s)"
    by simp
  have e2: "((dependencies_graph s)(key \<mapsto> insert a c))(key \<mapsto> insert a c \<union> set subs) =
              (dependencies_graph s)(key \<mapsto> c \<union> set (a # subs))"
    by simp
  show ?case
    by (simp only: e1 step g e2)
qed

lemma iteration_seen:
  assumes "pop pick (to_visit s) = (k, rest)" "k \<in> visited s"
  shows "iteration w pick s = (None, s\<lparr>to_visit := rest\<rparr>)"
  using assms by (simp add: iteration_def)

text \<open>The state in which the popped reference has been marked, before it is cloned.\<close>

lemma iteration_new:
  assumes "pop pick (to_visit s) = (k, rest)" "k \<notin> visited s"
  shows "fst (iteration w pick s) = raises w k"
    and "visited (snd (iteration w pick s)) = insert k (visited s)"
    and "all_discovered (snd (iteration w pick s)) = all_discovered s \<union> children w k"
    and "set (to_visit (snd (iteration w pick s))) =
           set rest \<union> (children w k - all_discovered s)"
    and "cloned (snd (iteration w pick s)) = cloned s @ [k]"
    and "inspected (snd (iteration w pick s)) =
           inspected s @ (case w k of ActionFile _ _ _ \<Rightarrow> [k] | _ \<Rightarrow> [])"
    and "set (printed (snd (iteration w pick s))) =
           set (printed s) \<union> (case w k of CloneFailed e \<Rightarrow> {clone_warning k e} | _ \<Rightarrow> {})"
  using assms
  by (auto simp: iteration_def raises_def children_def inspect_def Let_def
      fold_add_sub_unchanged fold_add_sub_all_discovered fold_add_sub_to_visit
      split: acquired.splits sum.splits prod.splits)

lemma iteration_new_graph:
  assumes "pop pick (to_visit s) = (k, rest)" "k \<notin> visited s"
  shows "dependencies_graph (snd (iteration w pick s)) =
           (dependencies_graph s)
             (k \<mapsto> (case dependencies_graph s k of None \<Rightarrow> {} | Some c \<Rightarrow> c) \<union> children w k)"
  using assms
  by (auto simp: iteration_def children_def inspect_def Let_def setdefault_eq
      fold_add_sub_graph split: acquired.splits sum.splits prod.splits)

lemma iteration_new_warnings:
  assumes "pop pick (to_visit s) = (k, rest)" "k \<notin> visited s"
  shows "docker_warnings_map (snd (iteration w pick s)) =
           (docker_warnings_map s)
             (k \<mapsto> (case docker_warnings_map s k of None \<Rightarrow> [] | Some ws \<Rightarrow> ws)
                    @ node_warnings w k)"
  using assms
  by (auto simp: iteration_def node_warnings_def inspect_def Let_def setdefault_eq
      fold_add_sub_unchanged split: acquired.splits sum.splits prod.splits)

subsection \<open>What the scanners discover\<close>

lemma parsed_not_main: "parsed k \<Longrightarrow> k \<noteq> MAIN_KEY"
proof
  assume "parsed k" "k = MAIN_KEY"
  then obtain u where "parse_uses_value u = Inr (''__MAIN_REPO__'', '''', '''')"
    by (auto simp: parsed_def MAIN_KEY_def)
  from parse_result [OF this] show False
    by (simp add: ref_shape_def)
qed

lemma uses_reference_parsed: "uses_reference v = Inr (Some k) \<Longrightarrow> parsed k"
  unfolding uses_reference_def parsed_def
  by (auto split: option.splits if_splits yaml.splits sum.splits error.splits)

lemma composite_steps_parsed:
  "composite_steps steps acc = Inr res \<Longrightarrow> \<forall>k\<in>set acc. parsed k \<Longrightarrow> \<forall>k\<in>set res. parsed k"
proof (induction steps arbitrary: acc)
  case Nil
  then show ?case by simp
next
  case (Cons step steps)
  show ?case
  proof (cases step)
    case (YMap kvs)
    show ?thesis
    proof (cases "uses_reference (map_of kvs ''uses'')")
      case (Inl e)
      then show ?thesis using Cons.prems(1) YMap by simp
    next
      case (Inr r)
      show ?thesis
      proof (cases r)
        case None
        with Inr YMap Cons.prems(1) have "composite_steps steps acc = Inr res" by simp
        then show ?thesis using Cons.prems(2) by (rule Cons.IH)
      next
        case (Some k)
        with Inr YMap Cons.prems(1)
        have "composite_steps steps (List.insert k acc) = Inr res" by simp
        moreover have "\<forall>k\<in>set (List.insert k acc). parsed k"
          using uses_reference_parsed [of "map_of kvs ''uses''" k] Inr Some Cons.prems(2)
          by simp
        ultimately show ?thesis by (rule Cons.IH)
      qed
    qed
  qed (use Cons.prems(1) in simp_all)
qed

lemma workflow_steps_parsed:
  "workflow_steps steps acc = Inr res \<Longrightarrow> \<forall>k\<in>set acc. parsed k \<Longrightarrow> \<forall>k\<in>set res. parsed k"
proof (induction steps arbitrary: acc)
  case Nil
  then show ?case by simp
next
  case (Cons step steps)
  show ?case
  proof (cases step)
    case (YMap kvs)
    show ?thesis
    proof (cases "uses_reference (map_of kvs ''uses'')")
      case (Inl e)
      then show ?thesis using Cons.prems(1) YMap by simp
    next
      case (Inr r)
      show ?thesis
      proof (cases r)
        case None
        with Inr YMap Cons.prems(1) have "workflow_steps steps acc = Inr res" by simp
        then show ?thesis using Cons.prems(2) by (rule Cons.IH)
      next
        case (Some k)
        with Inr YMap Cons.prems(1)
        have "workflow_steps steps (List.insert k acc) = Inr res" by simp
        moreover have "\<forall>k\<in>set (List.insert k acc). parsed k"
          using uses_reference_parsed [of "map_of kvs ''uses''" k] Inr Some Cons.prems(2)
          by simp
        ultimately show ?thesis by (rule Cons.IH)
      qed
    qed
  qed (use Cons.prems in \<open>simp_all add: Cons.IH\<close>)
qed

lemma workflow_jobs_parsed:
  "workflow_jobs jobs acc = Inr res \<Longrightarrow> \<forall>k\<in>set acc. parsed k \<Longrightarrow> \<forall>k\<in>set res. parsed k"
proof (induction jobs arbitrary: acc)
  case Nil
  then show ?case by simp
next
  case (Cons job jobs)
  obtain name job_data where job: "job = (name, job_data)" by (cases job)
  show ?case
  proof (cases job_data)
    case (YMap kvs)
    show ?thesis
    proof (cases "case map_of kvs ''steps'' of None \<Rightarrow> YList [] | Some v \<Rightarrow> v")
      case (YList steps)
      show ?thesis
      proof (cases "workflow_steps steps acc")
        case (Inl e)
        then show ?thesis using Cons.prems(1) job YMap YList by simp
      next
        case (Inr found')
        with Cons.prems(1) job YMap YList have "workflow_jobs jobs found' = Inr res" by simp
        moreover have "\<forall>k\<in>set found'. parsed k"
          using workflow_steps_parsed [OF Inr Cons.prems(2)] .
        ultimately show ?thesis by (rule Cons.IH)
      qed
    qed (use Cons.prems job YMap in \<open>simp_all add: Cons.IH\<close>)
  qed (use Cons.prems job in \<open>simp_all add: Cons.IH\<close>)
qed

lemma workflow_files_parsed:
  "workflow_files files acc = Inr res \<Longrightarrow> \<forall>k\<in>set acc. parsed k \<Longrightarrow> \<forall>k\<in>set res. parsed k"
proof (induction files arbitrary: acc)
  case Nil
  then show ?case by simp
next
  case (Cons wf_file files)
  show ?case
  proof (cases wf_file)
    case (LoadError e)
    then show ?thesis using Cons.prems by (simp add: Cons.IH)
  next
    case (Loaded doc)
    show ?thesis
    proof (cases doc)
      case (YMap kvs)
      show ?thesis
      proof (cases "case map_of kvs ''jobs'' of None \<Rightarrow> YMap [] | Some v \<Rightarrow> v")
        case jobs: (YMap jobs)
        show ?thesis
        proof (cases "workflow_jobs jobs acc")
          case (Inl e)
          then show ?thesis using Cons.prems(1) Loaded YMap jobs by simp
        next
          case (Inr found')
          with Cons.prems(1) Loaded YMap jobs have "workflow_files files found' = Inr res"
            by simp
          moreover have "\<forall>k\<in>set found'. parsed k"
            using workflow_jobs_parsed [OF Inr Cons.prems(2)] .
          ultimately show ?thesis by (rule Cons.IH)
        qed
      qed (use Cons.prems Loaded YMap in \<open>simp_all add: Cons.IH\<close>)
    qed (use Cons.prems Loaded in \<open>simp_all add: Cons.IH\<close>)
  qed
qed

lemma root_references_parsed: "k \<in> root_references files \<Longrightarrow> parsed k"
  using workflow_files_parsed [of files "[]"]
  by (auto simp: root_references_def get_actions_from_workflows_def split: sum.splits)

lemma inspector_children:
  assumes "get_actions_and_docker_warnings_from_action_file name loaded df = Inr (subs, ws)"
  shows "subs = [] \<or> (\<exists>steps. composite_steps steps [] = Inr subs)"
  using assms unfolding get_actions_and_docker_warnings_from_action_file_def
  by (auto split: load_result.splits yaml.splits option.splits if_splits dockerfile.splits
      sum.splits)

lemma children_parsed: "c \<in> children w k \<Longrightarrow> parsed c"
proof -
  assume c: "c \<in> children w k"
  then obtain name loaded df subs ws where
    "get_actions_and_docker_warnings_from_action_file name loaded df = Inr (subs, ws)"
    and "c \<in> set subs"
    by (auto simp: children_def inspect_def split: sum.splits acquired.splits)
  with inspector_children [of name loaded df subs ws] composite_steps_parsed [of _ "[]" subs]
  show ?thesis by auto
qed

subsection \<open>Invariants are kept by an iteration\<close>

lemma reachable_seed: "S \<subseteq> reachable w S"
  by (auto simp: reachable_def)

lemma reachable_step: "a \<in> reachable w S \<Longrightarrow> b \<in> children w a \<Longrightarrow> b \<in> reachable w S"
  unfolding reachable_def
  by (auto intro: rtrancl_into_rtrancl)

lemma reachable_least:
  assumes "S \<subseteq> X" "\<forall>k\<in>X. children w k \<subseteq> X"
  shows "reachable w S \<subseteq> X"
proof
  fix b
  assume "b \<in> reachable w S"
  then obtain a where a: "a \<in> S" and r: "(a, b) \<in> {(a, b). b \<in> children w a}\<^sup>*"
    by (auto simp: reachable_def)
  from r a show "b \<in> X"
    using assms by (induction rule: rtrancl_induct) auto
qed

lemma pop_exists: "\<exists>k rest. pop pick xs = (k, rest)"
  by (metis prod.collapse)

lemma sets_inv_iteration:
  assumes inv: "sets_inv w S s" and ne: "to_visit s \<noteq> []"
  shows "sets_inv w S (snd (iteration w pick s))"
proof -
  obtain k rest where p: "pop pick (to_visit s) = (k, rest)"
    using pop_exists by blast
  note pm = pop_member [OF ne p]
  show ?thesis
  proof (cases "k \<in> visited s")
    case True
    have "iteration w pick s = (None, s\<lparr>to_visit := rest\<rparr>)"
      using p True by (rule iteration_seen)
    then show ?thesis
      using inv pm True unfolding sets_inv_def by simp blast
  next
    case False
    note it = iteration_new [OF p False, of w]
    have kr: "k \<in> reachable w S"
      using inv pm(1) by (auto simp: sets_inv_def)
    have cr: "children w k \<subseteq> reachable w S"
      using kr reachable_step by blast
    have cm: "MAIN_KEY \<notin> children w k"
      using children_parsed parsed_not_main by blast
    show ?thesis
      unfolding sets_inv_def it(2,3,4)
      using inv pm cr cm unfolding sets_inv_def by simp blast
  qed
qed

lemma maps_inv_iteration:
  assumes inv: "sets_inv w S s" and m: "maps_inv w S s" and ne: "to_visit s \<noteq> []"
  shows "maps_inv w S (snd (iteration w pick s))"
proof -
  obtain k rest where p: "pop pick (to_visit s) = (k, rest)"
    using pop_exists by blast
  note pm = pop_member [OF ne p]
  show ?thesis
  proof (cases "k \<in> visited s")
    case True
    have "iteration w pick s = (None, s\<lparr>to_visit := rest\<rparr>)"
      using p True by (rule iteration_seen)
    then show ?thesis
      using m by (simp add: maps_inv_def)
  next
    case False
    note it = iteration_new [OF p False, of w]
    have km: "k \<noteq> MAIN_KEY"
      using inv pm(1) by (auto simp: sets_inv_def)
    have "k \<notin> dom (dependencies_graph s)" "k \<notin> dom (docker_warnings_map s)"
      using m km False by (auto simp: maps_inv_def)
    then have none: "dependencies_graph s k = None" "docker_warnings_map s k = None"
      by auto
    have g: "dependencies_graph (snd (iteration w pick s)) =
               (dependencies_graph s)(k \<mapsto> children w k)"
      using iteration_new_graph [OF p False, of w] none by simp
    have d: "docker_warnings_map (snd (iteration w pick s)) =
               (docker_warnings_map s)(k \<mapsto> node_warnings w k)"
      using iteration_new_warnings [OF p False, of w] none by simp
    show ?thesis
      unfolding maps_inv_def it(2) g d
      using m km by (auto simp: maps_inv_def)
  qed
qed

lemma trace_inv_iteration:
  assumes t: "trace_inv w s" and ne: "to_visit s \<noteq> []"
  shows "trace_inv w (snd (iteration w pick s))"
proof -
  obtain k rest where p: "pop pick (to_visit s) = (k, rest)"
    using pop_exists by blast
  show ?thesis
  proof (cases "k \<in> visited s")
    case True
    have "iteration w pick s = (None, s\<lparr>to_visit := rest\<rparr>)"
      using p True by (rule iteration_seen)
    then show ?thesis
      using t by (simp add: trace_inv_def)
  next
    case False
    note it = iteration_new [OF p False, of w]
    show ?thesis
      unfolding trace_inv_def it(2,5,6,7)
      using t False by (auto simp: trace_inv_def split: acquired.splits)
  qed
qed

lemma traversal_inv_iteration:
  "traversal_inv w S s \<Longrightarrow> to_visit s \<noteq> [] \<Longrightarrow> traversal_inv w S (snd (iteration w pick s))"
  by (simp add: traversal_inv_def sets_inv_iteration maps_inv_iteration trace_inv_iteration)

subsection \<open>The loop\<close>

text \<open>
  Induction over a run of the loop that returns: the worklist is empty, or the iteration
  raises, or the loop goes on from the state that the iteration reaches.
\<close>

lemma drain_induct [consumes 1, case_names empty raised again]:
  assumes run: "drain w pick s = Some r"
    and empty: "\<And>s. to_visit s = [] \<Longrightarrow> P s (None, s)"
    and raised: "\<And>s. to_visit s \<noteq> [] \<Longrightarrow> fst (iteration w pick s) \<noteq> None \<Longrightarrow>
                   P s (iteration w pick s)"
    and again: "\<And>s r. to_visit s \<noteq> [] \<Longrightarrow> fst (iteration w pick s) = None \<Longrightarrow>
                  P (snd (iteration w pick s)) r \<Longrightarrow> P s r"
  shows "P s r"
proof -
  have "w = w \<longrightarrow> pick = pick \<longrightarrow> P s r"
  proof (rule drain.raw_induct
      [where P = "\<lambda>w' pick' s r. w' = w \<longrightarrow> pick' = pick \<longrightarrow> P s r", OF _ run])
    fix d w' pick' s r
    assume IH: "\<And>w'' p s r. d w'' p s = Some r \<Longrightarrow> w'' = w \<longrightarrow> p = pick \<longrightarrow> P s r"
      and eq: "(if to_visit s = [] then Some (None, s)
                else let r = iteration w' pick' s
                     in if fst r \<noteq> None then Some r else d w' pick' (snd r)) = Some r"
    show "w' = w \<longrightarrow> pick' = pick \<longrightarrow> P s r"
    proof (intro impI)
      assume w: "w' = w" and p: "pick' = pick"
      show "P s r"
      proof (cases "to_visit s = []")
        case True
        with eq have "r = (None, s)" by simp
        with empty [OF True] show ?thesis by simp
      next
        case False
        show ?thesis
        proof (cases "fst (iteration w pick s) = None")
          case True
          with eq False w p have "d w pick (snd (iteration w pick s)) = Some r"
            by (simp add: Let_def)
          from IH [OF this] have "P (snd (iteration w pick s)) r" by simp
          with False True show ?thesis by (rule again)
        next
          case ne: False
          with eq False w p have "r = iteration w pick s"
            by (simp add: Let_def)
          with raised [OF False ne] show ?thesis by simp
        qed
      qed
    qed
  qed
  then show ?thesis by simp
qed

lemma drain_inv:
  "drain w pick s = Some r \<Longrightarrow> traversal_inv w S s \<Longrightarrow> traversal_inv w S (snd r)"
  by (induction rule: drain_induct) (simp_all add: traversal_inv_iteration)

lemma drain_returns:
  "drain w pick s = Some r \<Longrightarrow> fst r = None \<Longrightarrow> to_visit (snd r) = []"
  by (induction rule: drain_induct) simp_all






subsection \<open>The loop ends on a finite universe\<close>

lemma drain_terminates:
  assumes fin: "finite U" and closed: "\<forall>k\<in>U. children w k \<subseteq> U"
  shows "set (to_visit s) \<subseteq> U \<Longrightarrow> \<exists>r. drain w pick s = Some r"
proof (induction s rule: wf_induct_rule
    [OF wf_measures [of "[\<lambda>s. card (U - all_discovered s), \<lambda>s. card (set (to_visit s))]"]])
  case (1 s)
  show ?case
  proof (cases "to_visit s = []")
    case True
    then show ?thesis by (subst drain.simps) simp
  next
    case False
    obtain k rest where p: "pop pick (to_visit s) = (k, rest)"
      using pop_exists by blast
    note pm = pop_member [OF False p]
    let ?s' = "snd (iteration w pick s)"
    have "set rest \<subset> set (to_visit s)"
      using pm by auto
    then have less_rest: "card (set rest) < card (set (to_visit s))"
      by (simp add: psubset_card_mono)
    have smaller: "(?s', s) \<in> measures [\<lambda>s. card (U - all_discovered s), \<lambda>s. card (set (to_visit s))]"
      and inside: "set (to_visit ?s') \<subseteq> U"
    proof -
      show "(?s', s) \<in> measures [\<lambda>s. card (U - all_discovered s), \<lambda>s. card (set (to_visit s))]"
      proof (cases "k \<in> visited s")
        case True
        have "iteration w pick s = (None, s\<lparr>to_visit := rest\<rparr>)"
          using p True by (rule iteration_seen)
        then show ?thesis using less_rest by simp
      next
        case new: False
        note it = iteration_new [OF p new, of w]
        show ?thesis
        proof (cases "children w k \<subseteq> all_discovered s")
          case True
          then have "all_discovered ?s' = all_discovered s" "set (to_visit ?s') = set rest"
            using it(3,4) by auto
          then show ?thesis using less_rest by simp
        next
          case False
          then obtain c where c: "c \<in> children w k" "c \<notin> all_discovered s" by blast
          have "c \<in> U" using c(1) closed pm(1) 1(2) by blast
          then have "U - all_discovered ?s' \<subset> U - all_discovered s"
            using c it(3) by auto
          then have "card (U - all_discovered ?s') < card (U - all_discovered s)"
            using fin by (simp add: psubset_card_mono)
          then show ?thesis by simp
        qed
      qed
      show "set (to_visit ?s') \<subseteq> U"
      proof (cases "k \<in> visited s")
        case True
        have "iteration w pick s = (None, s\<lparr>to_visit := rest\<rparr>)"
          using p True by (rule iteration_seen)
        then show ?thesis using pm 1(2) by auto
      next
        case new: False
        have "children w k \<subseteq> U" using closed pm(1) 1(2) by blast
        then show ?thesis
          using iteration_new(4) [OF p new, of w] pm 1(2) by auto
      qed
    qed
    from 1(1) [OF smaller inside] obtain r where r: "drain w pick ?s' = Some r" ..
    show ?thesis
      by (subst drain.simps) (simp add: False Let_def r)
  qed
qed

subsection \<open>Runs of the function\<close>

lemma init_state_inv:
  assumes "\<forall>k\<in>set discovered. parsed k"
  shows "traversal_inv w (set discovered) (init_state url discovered)"
proof -
  have "MAIN_KEY \<notin> set discovered"
    using assms parsed_not_main by blast
  then show ?thesis
    using reachable_seed [of "set discovered" w]
    by (simp add: traversal_inv_def sets_inv_def maps_inv_def trace_inv_def init_state_def)
qed

lemma no_state_keys:
  "dom (dependencies_graph (no_state url)) = {}" "dom (docker_warnings_map (no_state url)) = {}"
  "all_discovered (no_state url) = {}" "cloned (no_state url) = []"
  "inspected (no_state url) = []" "to_visit (no_state url) = []" "visited (no_state url) = {}"
  by (simp_all add: no_state_def)

text \<open>A run either raises while scanning the workflows or is a run of the loop.\<close>

lemma run_cases:
  assumes "recursively_discover_actions url files w pick = Some (e, s)"
  obtains (scan_raised) err where "get_actions_from_workflows files = Inl err"
      "e = Some err" "s = no_state url"
  | (looped) discovered where "get_actions_from_workflows files = Inr discovered"
      "root_references files = set discovered"
      "drain w pick (init_state url discovered) = Some (e, s)"
      "traversal_inv w (set discovered) s"
proof (cases "get_actions_from_workflows files")
  case (Inl err)
  with assms have "e = Some err" "s = no_state url"
    by (simp_all add: recursively_discover_actions_def)
  with Inl show ?thesis by (rule scan_raised)
next
  case (Inr discovered)
  then have rr: "root_references files = set discovered"
    by (simp add: root_references_def)
  have d: "drain w pick (init_state url discovered) = Some (e, s)"
    using assms Inr by (simp add: recursively_discover_actions_def)
  have "\<forall>k\<in>set discovered. parsed k"
    using root_references_parsed [of _ files] rr by simp
  from drain_inv [OF d init_state_inv [OF this]]
  have "traversal_inv w (set discovered) s" by simp
  with Inr rr d show ?thesis by (rule looped)
qed

text \<open>When the loop returns, exactly the reachable references have been visited.\<close>

lemma returned_visited:
  assumes "drain w pick s0 = Some (None, s)" "traversal_inv w S s"
  shows "visited s = reachable w S" and "all_discovered s = reachable w S"
proof -
  have tv: "to_visit s = []"
    using drain_returns [OF assms(1)] by simp
  have i: "sets_inv w S s"
    using assms(2) by (simp add: traversal_inv_def)
  have eq: "all_discovered s = visited s"
    using i tv by (simp add: sets_inv_def)
  have "reachable w S \<subseteq> visited s"
    using i eq by (intro reachable_least) (auto simp: sets_inv_def)
  moreover have "visited s \<subseteq> reachable w S"
    using i eq by (auto simp: sets_inv_def)
  ultimately show "visited s = reachable w S" by blast
  with eq show "all_discovered s = reachable w S" by simp
qed





section \<open>The claims\<close>

text \<open>
  C4, as amended. A string \<open>owner/name@version\<close> whose owner is not empty and has no
  \<open>/\<close>, whose name is not empty and has no \<open>@\<close>, and whose version is not empty and
  has no line feed is parsed into its three parts, and, unless the owner is the sentinel
  \<open>__MAIN_REPO__\<close>, formatting the parts gives the string back. Whatever is parsed has
  that shape, the string being the three parts, possibly followed by one line feed that
  is dropped, and such a string with the line feed is parsed into the same three parts.
  Every other string fails with the malformed-reference error.
\<close>

theorem parse_format_roundtrip:
  "(ref_shape owner name version \<and> CHR 0x0A \<notin> set version \<longrightarrow>
      parse_uses_value (owner @ ''/'' @ name @ ''@'' @ version) = Inr (owner, name, version) \<and>
      parse_uses_value (owner @ ''/'' @ name @ ''@'' @ version @ [CHR 0x0A]) =
        Inr (owner, name, version) \<and>
      (owner \<noteq> ''__MAIN_REPO__'' \<longrightarrow>
         key_to_str (owner, name, version) = owner @ ''/'' @ name @ ''@'' @ version)) \<and>
   (parse_uses_value s = Inr (owner', name', version') \<longrightarrow>
      ref_shape owner' name' version' \<and> CHR 0x0A \<notin> set version' \<and>
      (s = owner' @ ''/'' @ name' @ ''@'' @ version' \<or>
       s = owner' @ ''/'' @ name' @ ''@'' @ version' @ [CHR 0x0A])) \<and>
   ((\<forall>k. parse_uses_value t \<noteq> Inr k) \<longrightarrow>
      parse_uses_value t = Inl (ValueError (''Cannot parse uses string: '' @ t)))"
proof (intro conjI impI)
  assume a: "ref_shape owner name version \<and> CHR 0x0A \<notin> set version"
  then show "parse_uses_value (owner @ ''/'' @ name @ ''@'' @ version) =
               Inr (owner, name, version)"
    using parse_accepts by blast
  from a show "parse_uses_value (owner @ ''/'' @ name @ ''@'' @ version @ [CHR 0x0A]) =
               Inr (owner, name, version)"
    using parse_accepts_final_line_feed by blast
  assume "owner \<noteq> ''__MAIN_REPO__''"
  then show "key_to_str (owner, name, version) = owner @ ''/'' @ name @ ''@'' @ version"
    by (simp add: key_to_str_def)
next
  assume p: "parse_uses_value s = Inr (owner', name', version')"
  from parse_result [OF p]
  show "ref_shape owner' name' version'" "CHR 0x0A \<notin> set version'"
    "s = owner' @ ''/'' @ name' @ ''@'' @ version' \<or>
     s = owner' @ ''/'' @ name' @ ''@'' @ version' @ [CHR 0x0A]"
    by blast+
next
  assume "\<forall>k. parse_uses_value t \<noteq> Inr k"
  then show "parse_uses_value t = Inl (ValueError (''Cannot parse uses string: '' @ t))"
    by (simp add: parse_uses_value_def Let_def split: if_splits)
qed

theorem parse_format_roundtrip_witness:
  "parse_uses_value ''actions/checkout@v4'' = Inr (''actions'', ''checkout'', ''v4'') \<and>
   parse_uses_value (''actions/checkout@v4'' @ [CHR 0x0A]) = Inr (''actions'', ''checkout'', ''v4'') \<and>
   key_to_str (''actions'', ''checkout'', ''v4'') = ''actions/checkout@v4'' \<and>
   ref_shape ''actions'' ''checkout'' ''v4'' \<and>
   parse_uses_value ''./local-action'' =
     Inl (ValueError ''Cannot parse uses string: ./local-action'')"
proof -
  have shape: "ref_shape ''actions'' ''checkout'' ''v4'' \<and> CHR 0x0A \<notin> set ''v4''"
    by (simp add: ref_shape_def)
  have owner: "''actions'' \<noteq> ''__MAIN_REPO__''"
    by simp
  have p: "parse_uses_value ''actions/checkout@v4'' = Inr (''actions'', ''checkout'', ''v4'')"
    by (simp add: parse_uses_value_def)
  have n: "\<forall>k. parse_uses_value ''./local-action'' \<noteq> Inr k"
    by (simp add: parse_uses_value_def)
  from parse_format_roundtrip
    [of "''actions''" "''checkout''" "''v4''" "''actions/checkout@v4''"
      "''actions''" "''checkout''" "''v4''" "''./local-action''"]
    shape owner p n
  show ?thesis by simp
qed

theorem parse_format_roundtrip_counterexample:
  "ref_shape ''a'' ''b'' (''v'' @ [CHR 0x0A]) \<and>
   parse_uses_value (''a'' @ ''/'' @ ''b'' @ ''@'' @ (''v'' @ [CHR 0x0A])) = Inr (''a'', ''b'', ''v'') \<and>
   key_to_str (''a'', ''b'', ''v'') \<noteq> ''a'' @ ''/'' @ ''b'' @ ''@'' @ (''v'' @ [CHR 0x0A]) \<and>
   ref_shape ''a'' ''b'' (''v'' @ [CHR 0x0A] @ ''w'') \<and>
   parse_uses_value (''a'' @ ''/'' @ ''b'' @ ''@'' @ (''v'' @ [CHR 0x0A] @ ''w'')) =
     Inl (ValueError (''Cannot parse uses string: a/b@v'' @ [CHR 0x0A] @ ''w'')) \<and>
   ref_shape ''__MAIN_REPO__'' ''x'' ''v'' \<and>
   parse_uses_value (''__MAIN_REPO__'' @ ''/'' @ ''x'' @ ''@'' @ ''v'') =
     Inr (''__MAIN_REPO__'', ''x'', ''v'') \<and>
   key_to_str (''__MAIN_REPO__'', ''x'', ''v'') \<noteq> ''__MAIN_REPO__'' @ ''/'' @ ''x'' @ ''@'' @ ''v''"
  by (simp add: ref_shape_def parse_uses_value_def key_to_str_def)


text \<open>
  C5. When a run ends, the dependency graph and the warnings map have the same keys, and
  the sentinel key is one of them whenever the function returns.
\<close>

theorem graph_and_warnings_same_keys:
  assumes "recursively_discover_actions url files world pick = Some (e, s)"
  shows "dom (dependencies_graph s) = dom (docker_warnings_map s) \<and>
         (e = None \<longrightarrow> MAIN_KEY \<in> dom (dependencies_graph s) \<and>
                       MAIN_KEY \<in> dom (docker_warnings_map s))"
  using assms
proof (cases rule: run_cases)
  case (scan_raised err)
  then show ?thesis by (simp add: no_state_keys)
next
  case (looped discovered)
  then show ?thesis by (simp add: traversal_inv_def maps_inv_def)
qed

theorem graph_and_warnings_same_keys_witness:
  "\<exists>s. recursively_discover_actions ''u'' mixed_files cycle_world first_pick = Some (None, s) \<and>
       dom (dependencies_graph s) = dom (docker_warnings_map s) \<and>
       MAIN_KEY \<in> dom (dependencies_graph s) \<and> MAIN_KEY \<in> dom (docker_warnings_map s)"
proof -
  have "run_error (recursively_discover_actions ''u'' mixed_files cycle_world first_pick) = Some None"
    by code_simp
  then obtain s where run:
    "recursively_discover_actions ''u'' mixed_files cycle_world first_pick = Some (None, s)"
    by (auto simp: run_error_def)
  from graph_and_warnings_same_keys [OF run] run show ?thesis by simp
qed

text \<open>
  C9. The sentinel key has an empty name, every parsed reference has three parts that
  are not empty, so no parsed reference is the sentinel key; and when a run ends the
  sentinel key has not been discovered (a reference is put on the worklist only when it
  is added to the discovered ones), is not on the worklist, and has been neither cloned
  nor inspected.
\<close>

theorem sentinel_is_never_a_reference:
  "fst (snd MAIN_KEY) = [] \<and>
   (parse_uses_value u = Inr (owner, name, version) \<longrightarrow>
      owner \<noteq> [] \<and> name \<noteq> [] \<and> version \<noteq> [] \<and> (owner, name, version) \<noteq> MAIN_KEY) \<and>
   (recursively_discover_actions url files world pick = Some (e, s) \<longrightarrow>
      MAIN_KEY \<notin> all_discovered s \<and> MAIN_KEY \<notin> set (to_visit s) \<and>
      MAIN_KEY \<notin> set (cloned s) \<and> MAIN_KEY \<notin> set (inspected s))"
proof (intro conjI impI)
  show "fst (snd MAIN_KEY) = []"
    by (simp add: MAIN_KEY_def)
next
  assume p: "parse_uses_value u = Inr (owner, name, version)"
  from parse_result [OF p] show "owner \<noteq> []" "name \<noteq> []" "version \<noteq> []"
    by (simp_all add: ref_shape_def)
  from p have "parsed (owner, name, version)"
    unfolding parsed_def by blast
  then show "(owner, name, version) \<noteq> MAIN_KEY"
    by (rule parsed_not_main)
next
  assume run: "recursively_discover_actions url files world pick = Some (e, s)"
  have "MAIN_KEY \<notin> all_discovered s \<and> MAIN_KEY \<notin> set (to_visit s) \<and>
        MAIN_KEY \<notin> set (cloned s) \<and> MAIN_KEY \<notin> set (inspected s)"
    using run
  proof (cases rule: run_cases)
    case (scan_raised err)
    then show ?thesis by (simp add: no_state_keys)
  next
    case (looped discovered)
    then show ?thesis
      unfolding traversal_inv_def sets_inv_def trace_inv_def by blast
  qed
  then show "MAIN_KEY \<notin> all_discovered s" "MAIN_KEY \<notin> set (to_visit s)"
    "MAIN_KEY \<notin> set (cloned s)" "MAIN_KEY \<notin> set (inspected s)"
    by blast+
qed

theorem sentinel_is_never_a_reference_witness:
  "parse_uses_value ''org/a@v1'' = Inr ref_a \<and> ref_a \<noteq> MAIN_KEY \<and>
   (\<exists>s. recursively_discover_actions ''u'' mixed_files cycle_world last_pick = Some (None, s) \<and>
        ref_a \<in> all_discovered s \<and> MAIN_KEY \<notin> all_discovered s \<and>
        MAIN_KEY \<notin> set (cloned s) \<and> MAIN_KEY \<notin> set (inspected s))"
proof -
  have p: "parse_uses_value ''org/a@v1'' = Inr (''org'', ''a'', ''v1'')"
    by (simp add: parse_uses_value_def)
  have "case recursively_discover_actions ''u'' mixed_files cycle_world last_pick of
          None \<Rightarrow> False | Some (e, s) \<Rightarrow> e = None \<and> ref_a \<in> all_discovered s"
    by code_simp
  then obtain s where run:
    "recursively_discover_actions ''u'' mixed_files cycle_world last_pick = Some (None, s)"
    and a: "ref_a \<in> all_discovered s"
    by (auto split: option.splits)
  from sentinel_is_never_a_reference
    [of "''org/a@v1''" "''org''" "''a''" "''v1''" "''u''" mixed_files cycle_world last_pick None s]
    p run a
  show ?thesis by (simp add: ref_a_def)
qed

text \<open>
  C1. On a finite universe of references that holds the references of the workflows and
  the sub-actions of each of its members, every run ends, whatever the order of the
  pops; no reference is cloned twice or inspected twice, and no more references are
  cloned than the universe has. When the function returns and two discovered references
  use each other, each is a key of the graph with the other among its children.
\<close>

theorem traversal_ends_and_visits_once:
  assumes "finite U" and "root_references files \<subseteq> U" and "\<forall>k\<in>U. children world k \<subseteq> U"
  shows "\<exists>e s. recursively_discover_actions url files world pick = Some (e, s) \<and>
           distinct (cloned s) \<and> distinct (inspected s) \<and> length (cloned s) \<le> card U \<and>
           (e = None \<longrightarrow>
              (\<forall>a b. a \<in> all_discovered s \<and> b \<in> children world a \<and> a \<in> children world b \<longrightarrow>
                 (\<exists>ca cb. dependencies_graph s a = Some ca \<and> b \<in> ca \<and>
                           dependencies_graph s b = Some cb \<and> a \<in> cb)))"
proof (cases "get_actions_from_workflows files")
  case (Inl err)
  then have "recursively_discover_actions url files world pick = Some (Some err, no_state url)"
    by (simp add: recursively_discover_actions_def)
  then show ?thesis by (simp add: no_state_keys)
next
  case (Inr discovered)
  then have rr: "root_references files = set discovered"
    by (simp add: root_references_def)
  have "set (to_visit (init_state url discovered)) \<subseteq> U"
    using assms(2) rr by (simp add: init_state_def)
  from drain_terminates [OF assms(1,3) this]
  obtain e s where d: "drain world pick (init_state url discovered) = Some (e, s)"
    by fastforce
  then have run: "recursively_discover_actions url files world pick = Some (e, s)"
    using Inr by (simp add: recursively_discover_actions_def)
  from run obtain inv: "traversal_inv world (root_references files) s"
    using Inr rr by (cases rule: run_cases) auto
  have t: "trace_inv world s" and si: "sets_inv world (root_references files) s"
    and m: "maps_inv world (root_references files) s"
    using inv by (simp_all add: traversal_inv_def)
  have "reachable world (root_references files) \<subseteq> U"
    using assms(2,3) by (rule reachable_least)
  then have "set (cloned s) \<subseteq> U"
    using t si unfolding trace_inv_def sets_inv_def by blast
  then have "card (set (cloned s)) \<le> card U"
    using assms(1) by (simp add: card_mono)
  moreover have "card (set (cloned s)) = length (cloned s)"
    using t unfolding trace_inv_def by (intro distinct_card) blast
  ultimately have bound: "length (cloned s) \<le> card U"
    by simp
  have edges: "\<exists>ca cb. dependencies_graph s a = Some ca \<and> b \<in> ca \<and>
                        dependencies_graph s b = Some cb \<and> a \<in> cb"
    if "e = None" "a \<in> all_discovered s" "b \<in> children world a" "a \<in> children world b"
    for a b
  proof -
    have v: "visited s = all_discovered s"
      using returned_visited [OF _ inv] d that(1) rr by simp
    have "b \<in> all_discovered s"
      using si that(2,3) v unfolding sets_inv_def by blast
    then show ?thesis
      using m v that(2,3,4) unfolding maps_inv_def by simp
  qed
  show ?thesis
    using run t bound edges unfolding trace_inv_def by blast
qed

theorem traversal_ends_and_visits_once_witness:
  "finite {ref_a, ref_b} \<and> root_references cycle_files \<subseteq> {ref_a, ref_b} \<and>
   children cycle_world ref_a = {ref_b} \<and> children cycle_world ref_b = {ref_a} \<and>
   (\<exists>s. recursively_discover_actions ''u'' cycle_files cycle_world first_pick = Some (None, s) \<and>
        distinct (cloned s) \<and> distinct (inspected s) \<and> length (cloned s) \<le> 2 \<and>
        (\<exists>ca cb. dependencies_graph s ref_a = Some ca \<and> ref_b \<in> ca \<and>
                  dependencies_graph s ref_b = Some cb \<and> ref_a \<in> cb))"
proof -
  have fin: "finite {ref_a, ref_b}" by simp
  have roots: "root_references cycle_files \<subseteq> {ref_a, ref_b}" by code_simp
  have closed: "\<forall>k\<in>{ref_a, ref_b}. children cycle_world k \<subseteq> {ref_a, ref_b}" by code_simp
  have ca: "children cycle_world ref_a = {ref_b}" and cb: "children cycle_world ref_b = {ref_a}"
    by code_simp+
  then have ab: "ref_b \<in> children cycle_world ref_a" and ba: "ref_a \<in> children cycle_world ref_b"
    by simp_all
  have ne: "ref_a \<noteq> ref_b" by (simp add: ref_a_def ref_b_def)
  have here: "case recursively_discover_actions ''u'' cycle_files cycle_world first_pick of
          None \<Rightarrow> False | Some (e, s) \<Rightarrow> e = None \<and> ref_a \<in> all_discovered s"
    by code_simp
  from traversal_ends_and_visits_once [OF fin roots closed, of "''u''" first_pick]
  obtain e s where
    run: "recursively_discover_actions ''u'' cycle_files cycle_world first_pick = Some (e, s)"
    and once: "distinct (cloned s)" "distinct (inspected s)" "length (cloned s) \<le> card {ref_a, ref_b}"
    and edges: "e = None \<longrightarrow>
              (\<forall>a b. a \<in> all_discovered s \<and> b \<in> children cycle_world a \<and> a \<in> children cycle_world b \<longrightarrow>
                 (\<exists>ca cb. dependencies_graph s a = Some ca \<and> b \<in> ca \<and>
                           dependencies_graph s b = Some cb \<and> a \<in> cb))"
    by blast
  from here run have e: "e = None" and a: "ref_a \<in> all_discovered s"
    by simp_all
  from edges e a ab ba
  have "\<exists>ca cb. dependencies_graph s ref_a = Some ca \<and> ref_b \<in> ca \<and>
                 dependencies_graph s ref_b = Some cb \<and> ref_a \<in> cb"
    by blast
  with fin roots ca cb run e once ne show ?thesis by simp
qed






section \<open>Container images\<close>

subsection \<open>Substrings\<close>

lemma startswith_iff: "startswith s p \<longleftrightarrow> (\<exists>q. s = p @ q)"
proof
  assume "startswith s p"
  then have "s = p @ drop (length p) s"
    unfolding startswith_def by (metis append_take_drop_id)
  then show "\<exists>q. s = p @ q" ..
next
  assume "\<exists>q. s = p @ q"
  then show "startswith s p" by (auto simp: startswith_def)
qed

lemma str_contains_iff: "str_contains sub s \<longleftrightarrow> (\<exists>p q. s = p @ sub @ q)"
proof (induction s)
  case Nil
  then show ?case by simp
next
  case (Cons c cs)
  show ?case
  proof
    assume "str_contains sub (c # cs)"
    then consider "startswith (c # cs) sub" | "str_contains sub cs" by auto
    then show "\<exists>p q. c # cs = p @ sub @ q"
    proof cases
      case 1
      then obtain q where "c # cs = sub @ q" by (auto simp: startswith_iff)
      then have "c # cs = [] @ sub @ q" by simp
      then show ?thesis by blast
    next
      case 2
      with Cons.IH obtain p q where "cs = p @ sub @ q" by blast
      then have "c # cs = (c # p) @ sub @ q" by simp
      then show ?thesis by blast
    qed
  next
    assume "\<exists>p q. c # cs = p @ sub @ q"
    then obtain p q where e: "c # cs = p @ sub @ q" by blast
    show "str_contains sub (c # cs)"
    proof (cases p)
      case Nil
      with e have "startswith (c # cs) sub" by (auto simp: startswith_iff)
      then show ?thesis by simp
    next
      case (Cons a p')
      with e have "cs = p' @ sub @ q" by simp
      with Cons.IH have "str_contains sub cs" by blast
      then show ?thesis by simp
    qed
  qed
qed

text \<open>A prefix without the first character of the substring does not matter.\<close>

lemma str_contains_after_prefix:
  assumes "sub \<noteq> []" "hd sub \<notin> set d"
  shows "str_contains sub (d @ rest) = str_contains sub rest"
proof
  assume "str_contains sub rest"
  then obtain p q where "rest = p @ sub @ q" by (auto simp: str_contains_iff)
  then have "d @ rest = (d @ p) @ sub @ q" by simp
  then show "str_contains sub (d @ rest)" unfolding str_contains_iff by blast
next
  assume "str_contains sub (d @ rest)"
  then obtain p q where e: "p @ (sub @ q) = d @ rest" by (auto simp: str_contains_iff)
  then obtain us where
    "(p = d @ us \<and> us @ (sub @ q) = rest) \<or> (p @ us = d \<and> sub @ q = us @ rest)"
    by (auto simp: append_eq_append_conv2)
  then show "str_contains sub rest"
  proof
    assume "p = d @ us \<and> us @ (sub @ q) = rest"
    then have "rest = us @ sub @ q" by simp
    then show ?thesis unfolding str_contains_iff by blast
  next
    assume c: "p @ us = d \<and> sub @ q = us @ rest"
    show ?thesis
    proof (cases us)
      case Nil
      with c have "rest = [] @ sub @ q" by simp
      then show ?thesis unfolding str_contains_iff by blast
    next
      case (Cons u us')
      with c assms(1) have "hd sub = u" by (cases sub) auto
      moreover have "u \<in> set d" using c Cons by auto
      ultimately show ?thesis using assms(2) by simp
    qed
  qed
qed

lemma digest_suffix_contains: "has_digest_suffix s \<Longrightarrow> str_contains ''@sha256:'' s"
proof -
  assume h: "has_digest_suffix s"
  let ?n = "length s - 72"
  have "s = take ?n s @ drop ?n s" by simp
  also have "drop ?n s = take 8 (drop ?n s) @ drop 8 (drop ?n s)"
    by (simp only: append_take_drop_id)
  finally have "s = take ?n s @ ''@sha256:'' @ drop 8 (drop ?n s)"
    using h by (simp add: has_digest_suffix_def)
  then show ?thesis unfolding str_contains_iff by blast
qed

lemma unpinned_iff:
  assumes "startswith img ''docker://''"
  shows "is_unpinned_docker_image img \<longleftrightarrow> \<not> str_contains ''@sha256:'' img"
proof -
  from assms obtain rest where r: "img = ''docker://'' @ rest"
    by (auto simp: startswith_iff)
  have "str_contains ''@sha256:'' (''docker://'' @ rest) = str_contains ''@sha256:'' rest"
    by (rule str_contains_after_prefix) simp_all
  then show ?thesis
    using assms r by (simp add: is_unpinned_docker_image_def)
qed

subsection \<open>Dockerfiles\<close>

lemma dockerfile_line_flagged:
  "dockerfile_line line = (if flagged_line line then [from_warning line] else [])"
  by (simp add: dockerfile_line_def flagged_line_def from_warning_def Let_def)

lemma dockerfile_lines_filter:
  "dockerfile_lines lines warnings = warnings @ map from_warning (filter flagged_line lines)"
  by (induction lines arbitrary: warnings) (simp_all add: dockerfile_line_flagged)

text \<open>
  C7, as amended. When a Dockerfile is read to its end, there is one warning for each
  line that, once stripped, starts with \<open>FROM\<close> in any case followed by a space and
  whose remainder does not contain \<open>@sha256:\<close>, in the order of the lines; the warning
  quotes the stripped remainder of the line. So a Dockerfile whose such lines all contain
  \<open>@sha256:\<close> gives no warning, a line whose remainder ends with a full digest is never
  flagged, and the one line \<open>FROM ubuntu:20.04\<close> gives one warning with that image.
\<close>

theorem dockerfile_warnings:
  "analyze_dockerfile lines None = map from_warning (filter flagged_line lines) \<and>
   ((\<forall>l\<in>set lines. startswith (upper (strip l)) ''FROM '' \<longrightarrow>
                    str_contains ''@sha256:'' (strip (drop 5 (strip l)))) \<longrightarrow>
      analyze_dockerfile lines None = []) \<and>
   (has_digest_suffix (strip (drop 5 (strip line))) \<longrightarrow> \<not> flagged_line line) \<and>
   analyze_dockerfile [''FROM ubuntu:20.04'' @ [CHR 0x0A]] None =
     [''Unpinned Docker FROM => '' @ [CHR 0x27] @ ''ubuntu:20.04'' @ [CHR 0x27]]"
proof (intro conjI impI)
  show eq: "analyze_dockerfile lines None = map from_warning (filter flagged_line lines)"
    by (simp add: analyze_dockerfile_def dockerfile_lines_filter)
  show "analyze_dockerfile lines None = []"
    if "\<forall>l\<in>set lines. startswith (upper (strip l)) ''FROM '' \<longrightarrow>
                    str_contains ''@sha256:'' (strip (drop 5 (strip l)))"
  proof -
    have "filter flagged_line lines = []"
      using that by (auto simp: filter_empty_conv flagged_line_def)
    then show ?thesis by (simp add: eq)
  qed
  show "\<not> flagged_line line" if "has_digest_suffix (strip (drop 5 (strip line)))"
    using digest_suffix_contains [OF that] by (simp add: flagged_line_def)
  show "analyze_dockerfile [''FROM ubuntu:20.04'' @ [CHR 0x0A]] None =
     [''Unpinned Docker FROM => '' @ [CHR 0x27] @ ''ubuntu:20.04'' @ [CHR 0x27]]"
    by code_simp
qed

theorem dockerfile_warnings_witness:
  "length (filter (\<lambda>l. startswith (upper (strip l)) ''FROM '') pinned_dockerfile) = 2 \<and>
   list_all (\<lambda>l. str_contains ''@sha256:'' (strip (drop 5 (strip l))))
     (filter (\<lambda>l. startswith (upper (strip l)) ''FROM '') pinned_dockerfile) \<and>
   analyze_dockerfile pinned_dockerfile None = [] \<and>
   has_digest_suffix (strip (drop 5 (strip (last pinned_dockerfile)))) \<and>
   \<not> flagged_line (last pinned_dockerfile)"
proof -
  have pinned: "\<forall>l\<in>set pinned_dockerfile. startswith (upper (strip l)) ''FROM '' \<longrightarrow>
                    str_contains ''@sha256:'' (strip (drop 5 (strip l)))"
    by code_simp
  have two: "length (filter (\<lambda>l. startswith (upper (strip l)) ''FROM '') pinned_dockerfile) = 2"
    by code_simp
  have digest: "has_digest_suffix (strip (drop 5 (strip (last pinned_dockerfile))))"
    by code_simp
  have marked: "list_all (\<lambda>l. str_contains ''@sha256:'' (strip (drop 5 (strip l))))
     (filter (\<lambda>l. startswith (upper (strip l)) ''FROM '') pinned_dockerfile)"
    by code_simp
  from dockerfile_warnings [of pinned_dockerfile "last pinned_dockerfile"] pinned two digest marked
  show ?thesis by blast
qed

theorem dockerfile_warnings_counterexample:
  "is_from_directive tab_from_line \<and> \<not> str_contains ''@sha256:'' tab_from_line \<and>
   is_from_directive short_digest_line \<and>
   \<not> has_digest_suffix (strip (drop 5 (strip short_digest_line))) \<and>
   analyze_dockerfile [tab_from_line, short_digest_line] None = []"
  by code_simp

section \<open>Action files\<close>

text \<open>What the function gives for a container action whose image is a string.\<close>

lemma docker_image_cases:
  assumes "map_of kvs ''runs'' = Some (YMap runs)"
    and "map_of runs ''using'' = Some (YStr ''docker'')"
  shows "get_actions_and_docker_warnings_from_action_file name (Loaded (YMap kvs)) df =
           (case map_of runs ''image'' of
              Some (YStr image_val) \<Rightarrow>
                if startswith image_val ''docker://'' then
                  (if is_unpinned_docker_image image_val
                   then Inr ([], [''Unpinned Docker image => '' @ image_val])
                   else Inr ([], []))
                else if image_val = ''Dockerfile'' then
                  (case df of
                     Dockerfile lines failure \<Rightarrow> Inr ([], analyze_dockerfile lines failure)
                   | NoDockerfile \<Rightarrow>
                       Inr ([], [''runs.image='' @ [CHR 0x27] @ ''Dockerfile'' @ [CHR 0x27] @
                                 '' but no Dockerfile found in root.'']))
                else Inr ([], [])
            | _ \<Rightarrow> Inr ([], []))"
  using assms by (simp add: get_actions_and_docker_warnings_from_action_file_def)

text \<open>
  C6, as amended. For a container action whose image starts with \<open>docker://\<close>: when
  the image contains \<open>@sha256:\<close>, as it does when it ends with a full digest, there is
  no warning; when it does not, there is exactly one warning, which ends with the image
  as it is written.
\<close>

theorem remote_image_warning:
  assumes "map_of kvs ''runs'' = Some (YMap runs)"
    and "map_of runs ''using'' = Some (YStr ''docker'')"
    and "map_of runs ''image'' = Some (YStr image_val)"
    and "startswith image_val ''docker://''"
  shows "(has_digest_suffix image_val \<longrightarrow> str_contains ''@sha256:'' image_val) \<and>
         (str_contains ''@sha256:'' image_val \<longrightarrow>
            get_actions_and_docker_warnings_from_action_file name (Loaded (YMap kvs)) df =
              Inr ([], [])) \<and>
         (\<not> str_contains ''@sha256:'' image_val \<longrightarrow>
            get_actions_and_docker_warnings_from_action_file name (Loaded (YMap kvs)) df =
              Inr ([], [''Unpinned Docker image => '' @ image_val]))"
  using docker_image_cases [OF assms(1,2), of name df] assms(3,4)
    unpinned_iff [OF assms(4)] digest_suffix_contains [of image_val]
  by auto

theorem remote_image_warning_witness:
  "has_digest_suffix (''docker://alpine@sha256:'' @ sixty_four_hex) \<and>
   get_actions_and_docker_warnings_from_action_file ''action.yml''
     (Loaded (docker_doc (YStr (''docker://alpine@sha256:'' @ sixty_four_hex)))) NoDockerfile =
     Inr ([], []) \<and>
   \<not> str_contains ''@sha256:'' ''docker://alpine:3.18'' \<and>
   get_actions_and_docker_warnings_from_action_file ''action.yml''
     (Loaded (docker_doc (YStr ''docker://alpine:3.18''))) NoDockerfile =
     Inr ([], [''Unpinned Docker image => docker://alpine:3.18''])"
proof -
  let ?pinned = "''docker://alpine@sha256:'' @ sixty_four_hex"
  let ?runs = "\<lambda>i. [(''using'', YStr ''docker''), (''image'', YStr i)]"
  let ?kvs = "\<lambda>i. [(''name'', YStr ''container action''), (''runs'', YMap (?runs i))]"
  have doc: "docker_doc (YStr i) = YMap (?kvs i)" for i
    by (simp add: docker_doc_def)
  have k: "map_of (?kvs i) ''runs'' = Some (YMap (?runs i))"
    and u: "map_of (?runs i) ''using'' = Some (YStr ''docker'')"
    and im: "map_of (?runs i) ''image'' = Some (YStr i)" for i
    by simp_all
  have d: "has_digest_suffix ?pinned" by code_simp
  have p1: "startswith ?pinned ''docker://''" by code_simp
  have p2: "startswith ''docker://alpine:3.18'' ''docker://''" by code_simp
  have n: "\<not> str_contains ''@sha256:'' ''docker://alpine:3.18''" by code_simp
  note t1 = remote_image_warning [OF k u im p1, of "''action.yml''" NoDockerfile]
  note t2 = remote_image_warning [OF k u im p2, of "''action.yml''" NoDockerfile]
  have c: "str_contains ''@sha256:'' ?pinned"
    using t1 d by blast
  have r1: "get_actions_and_docker_warnings_from_action_file ''action.yml''
              (Loaded (YMap (?kvs ?pinned))) NoDockerfile = Inr ([], [])"
    using t1 c by blast
  have r2: "get_actions_and_docker_warnings_from_action_file ''action.yml''
              (Loaded (YMap (?kvs ''docker://alpine:3.18''))) NoDockerfile =
              Inr ([], [''Unpinned Docker image => '' @ ''docker://alpine:3.18''])"
    using t2 n by blast
  show ?thesis
    using d n r1 r2 by (simp add: doc)
qed

theorem remote_image_warning_counterexample:
  "startswith ''docker://alpine@sha256:abc'' ''docker://'' \<and>
   \<not> has_digest_suffix ''docker://alpine@sha256:abc'' \<and>
   get_actions_and_docker_warnings_from_action_file ''action.yml''
     (Loaded (docker_doc (YStr ''docker://alpine@sha256:abc''))) NoDockerfile = Inr ([], [])"
  by code_simp

text \<open>
  C10. For a container action whose image is not a string, or is a string that neither
  starts with \<open>docker://\<close> nor is \<open>Dockerfile\<close>, there are no sub-actions and no
  warnings, whatever the Dockerfile beside the action file.
\<close>

theorem other_image_is_ignored:
  assumes "map_of kvs ''runs'' = Some (YMap runs)"
    and "map_of runs ''using'' = Some (YStr ''docker'')"
    and "\<forall>image_val. map_of runs ''image'' = Some (YStr image_val) \<longrightarrow>
           \<not> startswith image_val ''docker://'' \<and> image_val \<noteq> ''Dockerfile''"
  shows "get_actions_and_docker_warnings_from_action_file name (Loaded (YMap kvs)) df =
           Inr ([], [])"
  using docker_image_cases [OF assms(1,2), of name df] assms(3)
  by (auto split: option.splits yaml.splits)

theorem other_image_is_ignored_witness:
  "get_actions_and_docker_warnings_from_action_file ''action.yml''
     (Loaded (docker_doc (YStr ''./Dockerfile''))) (Dockerfile [''FROM ubuntu:20.04''] None) =
     Inr ([], []) \<and>
   get_actions_and_docker_warnings_from_action_file ''action.yml''
     (Loaded (docker_doc (YInt 5))) NoDockerfile = Inr ([], [])"
proof -
  let ?runs = "\<lambda>v. [(''using'', YStr ''docker''), (''image'', v)]"
  let ?kvs = "\<lambda>v. [(''name'', YStr ''container action''), (''runs'', YMap (?runs v))]"
  have doc: "docker_doc v = YMap (?kvs v)" for v
    by (simp add: docker_doc_def)
  have k: "map_of (?kvs v) ''runs'' = Some (YMap (?runs v))"
    and u: "map_of (?runs v) ''using'' = Some (YStr ''docker'')" for v
    by simp_all
  have a: "\<forall>image_val. map_of (?runs (YStr ''./Dockerfile'')) ''image'' = Some (YStr image_val) \<longrightarrow>
           \<not> startswith image_val ''docker://'' \<and> image_val \<noteq> ''Dockerfile''"
    by (simp add: startswith_def)
  have b: "\<forall>image_val. map_of (?runs (YInt 5)) ''image'' = Some (YStr image_val) \<longrightarrow>
           \<not> startswith image_val ''docker://'' \<and> image_val \<noteq> ''Dockerfile''"
    by simp
  from other_image_is_ignored [OF k u a, of "''action.yml''" "Dockerfile [''FROM ubuntu:20.04''] None"]
    other_image_is_ignored [OF k u b, of "''action.yml''" NoDockerfile]
  show ?thesis by (simp add: doc)
qed

text \<open>
  C3. A composite action file one of whose steps is not a mapping makes the function
  raise \<open>AttributeError\<close>, whereas the workflow scanner skips such a step.
\<close>

theorem composite_step_not_a_mapping:
  "get_actions_and_docker_warnings_from_action_file ''action.yml''
     (Loaded (composite_doc (YList [YStr ''echo hello'']))) NoDockerfile = Inl AttributeError \<and>
   workflow_steps [YStr ''echo hello''] [] = Inr [] \<and>
   get_actions_from_workflows
     [Loaded (YMap [(''jobs'', YMap [(''build'', YMap [(''steps'', YList [YStr ''echo hello''])])])])] =
     Inr []"
  by code_simp

end
